theory Spec2Isabelle
  imports Main "HOL-Library.Sublist"
begin

section \<open>Text primitives of the scripts\<close>

text \<open>
  The four migration scripts work on Python \<open>str\<close> values. A text is modelled as a
  \<^typ>\<open>string\<close>, one \<^typ>\<open>char\<close> per code point (code points below 256). File
  contents are the texts that \<open>read()\<close> returns and \<open>write()\<close> takes; newline
  translation of the text layer is not modelled.
\<close>

text \<open>Whitespace as \<open>str.isspace\<close>, \<open>str.strip\<close> and the pattern \<open>\s\<close> see it.\<close>

definition is_space :: "char \<Rightarrow> bool" where
  "is_space c = (of_char c \<in> {9, 10, 11, 12, 13, 28, 29, 30, 31, 32, 133, 160 :: nat})"

definition rstrip :: "string \<Rightarrow> string" where
  "rstrip s = rev (dropWhile is_space (rev s))"

definition strip :: "string \<Rightarrow> string" where
  "strip s = dropWhile is_space (rstrip s)"

text \<open>\<open>s.endswith(p)\<close>\<close>

definition endswith :: "string \<Rightarrow> string \<Rightarrow> bool" where
  "endswith s p = suffix p s"

text \<open>\<open>p in s\<close>\<close>

fun contains :: "string \<Rightarrow> string \<Rightarrow> bool" where
  "contains p [] = (p = [])"
| "contains p (c # cs) = (prefix p (c # cs) \<or> contains p cs)"

text \<open>
  \<open>s.replace(old, new)\<close>: every non-overlapping occurrence of \<open>old\<close>, scanning from
  the left. For an empty \<open>old\<close> Python puts \<open>new\<close> before every character and at the end.
\<close>

function replace :: "string \<Rightarrow> string \<Rightarrow> string \<Rightarrow> string" where
  "replace old new s =
     (if old = [] then new @ concat (map (\<lambda>c. c # new) s)
      else if s = [] then []
      else if prefix old s then new @ replace old new (drop (length old) s)
      else hd s # replace old new (tl s))"
  by pat_completeness auto
termination
  by (relation "measure (\<lambda>(old, new, s). length s)") (auto simp: neq_Nil_conv)

text \<open>\<open>s.count(p)\<close>: the number of non-overlapping occurrences.\<close>

function count_sub :: "string \<Rightarrow> string \<Rightarrow> nat" where
  "count_sub p s =
     (if p = [] then Suc (length s)
      else if s = [] then 0
      else if prefix p s then Suc (count_sub p (drop (length p) s))
      else count_sub p (tl s))"
  by pat_completeness auto
termination
  by (relation "measure (\<lambda>(p, s). length s)") (auto simp: neq_Nil_conv)

section \<open>The regular expressions of the scripts\<close>

text \<open>
  The patterns handed to \<open>re.search\<close> and \<open>re.sub\<close> are sequences of single
  characters, the classes \<open>[^c]\<close> and \<open>\s\<close>, greedy stars over a class, and \<open>$\<close>.
  A capture group around a literal does not change what is matched. The matcher is the
  backtracking one of \<open>re\<close>: a star first takes as many characters as it can and gives
  them back one at a time while the rest of the pattern fails.
\<close>

datatype cls = Is char | Not char | Space

fun accepts :: "cls \<Rightarrow> char \<Rightarrow> bool" where
  "accepts (Is a) c = (c = a)"
| "accepts (Not a) c = (c \<noteq> a)"
| "accepts Space c = is_space c"

datatype item = One cls | Many cls | EndOfString

definition lit :: "string \<Rightarrow> item list" where
  "lit s = map (\<lambda>c. One (Is c)) s"

text \<open>
  \<open>re_match r s\<close> matches \<open>r\<close> at the start of \<open>s\<close> and returns what is left of
  \<open>s\<close> after the match. Without \<open>re.MULTILINE\<close>, \<open>$\<close> holds at the end of the text
  and just before a newline that ends the text.
\<close>

fun re_match :: "item list \<Rightarrow> string \<Rightarrow> string option" where
  "re_match [] s = Some s"
| "re_match (One c # r) [] = None"
| "re_match (One c # r) (x # xs) = (if accepts c x then re_match r xs else None)"
| "re_match (Many c # r) [] = re_match r []"
| "re_match (Many c # r) (x # xs) =
     (if accepts c x
      then (case re_match (Many c # r) xs of
              Some t \<Rightarrow> Some t
            | None \<Rightarrow> re_match r (x # xs))
      else re_match r (x # xs))"
| "re_match (EndOfString # r) s =
     (if s = [] \<or> s = ''\<newline>'' then re_match r s else None)"

text \<open>\<open>re.search\<close>: the leftmost match, as the span \<open>(start, end)\<close>.\<close>

fun re_search :: "item list \<Rightarrow> string \<Rightarrow> (nat \<times> nat) option" where
  "re_search r [] =
     (case re_match r [] of Some t \<Rightarrow> Some (0, 0) | None \<Rightarrow> None)"
| "re_search r (c # cs) =
     (case re_match r (c # cs) of
        Some t \<Rightarrow> Some (0, length (c # cs) - length t)
      | None \<Rightarrow> map_option (\<lambda>(i, j). (Suc i, Suc j)) (re_search r cs))"

text \<open>
  \<open>re.sub(pattern, repl, s)\<close> with a replacement text free of backslashes: every
  non-overlapping match, from the left, is replaced. After an empty match the scan
  copies one character and goes on (no pattern of the scripts matches the empty
  text: each starts with a literal character).
\<close>

function re_sub :: "item list \<Rightarrow> string \<Rightarrow> string \<Rightarrow> string" where
  "re_sub r repl s =
     (case re_match r s of
        Some t \<Rightarrow>
          if length t < length s then repl @ re_sub r repl t
          else repl @ (case s of [] \<Rightarrow> [] | c # cs \<Rightarrow> c # re_sub r repl cs)
      | None \<Rightarrow> (case s of [] \<Rightarrow> [] | c # cs \<Rightarrow> c # re_sub r repl cs))"
  by pat_completeness auto
termination
  by (relation "measure (\<lambda>(r, repl, s). length s)") auto

section \<open>fix.py: the text transformation\<close>

definition process_frame_pattern :: "item list" where
  "process_frame_pattern =
     lit ''public override void ProcessFrame('' @
     [Many (Not (CHR '')'')), One (Is (CHR '')'')), Many Space, One (Is (CHR ''{'')),
      Many (Not (CHR ''}'')), One (Is (CHR ''}''))]"

definition process_core_text :: string where
  \<open>process_core_text =
     ''        protected override object ProcessCore(Dictionary<string, object> inputs, AudioFeatures audioFeatures)\<newline>'' @
     ''        {\<newline>'' @
     ''            if (!inputs.TryGetValue("Image", out var input) || input is not ImageBuffer imageBuffer)\<newline>'' @
     ''                return GetDefaultOutput();\<newline>'' @
     ''\<newline>'' @
     ''            var output = new ImageBuffer(imageBuffer.Width, imageBuffer.Height);\<newline>'' @
     ''            \<newline>'' @
     ''            // TODO: Implement actual effect logic here\<newline>'' @
     ''            // For now, just copy input to output\<newline>'' @
     ''            for (int i = 0; i < output.Pixels.Length; i++)\<newline>'' @
     ''            {\<newline>'' @
     ''                output.Pixels[i] = imageBuffer.Pixels[i];\<newline>'' @
     ''            }\<newline>'' @
     ''            \<newline>'' @
     ''            return output;\<newline>'' @
     ''        }\<newline>'' @
     ''\<newline>'' @
     ''        public override object GetDefaultOutput()\<newline>'' @
     ''        {\<newline>'' @
     ''            return new ImageBuffer(800, 600);\<newline>'' @
     ''        }''\<close>


definition get_config_pattern :: "item list" where
  "get_config_pattern =
     lit ''public override Dictionary<string, object> GetConfiguration()'' @
     [Many Space, One (Is (CHR ''{'')), Many (Not (CHR ''}'')), One (Is (CHR ''}''))]"

definition apply_config_pattern :: "item list" where
  "apply_config_pattern =
     lit ''public override void ApplyConfiguration(Dictionary<string, object> config)'' @
     [Many Space, One (Is (CHR ''{'')), Many (Not (CHR ''}'')), One (Is (CHR ''}''))]"

definition incomplete_region_pattern :: "item list" where
  "incomplete_region_pattern =
     lit ''#region Configuration'' @
     [Many Space, One (Is (CHR ''\<newline>'')), Many Space, One (Is (CHR ''\<newline>'')),
      Many Space, One (Is (CHR ''\<newline>'')), Many Space] @
     lit ''#endregion''"

definition trailing_region_pattern :: "item list" where
  "trailing_region_pattern =
     lit ''#region Configuration'' @
     [Many Space, One (Is (CHR ''\<newline>'')), Many Space, One (Is (CHR ''\<newline>'')),
      Many Space, One (Is (CHR ''\<newline>'')), Many Space, EndOfString]"

text \<open>
  One step of \<open>fix_effect_file_improved\<close>: \<open>if re.search(p, content): content =
  re.sub(p, repl, content); changes_made = True\<close>. The pair is \<open>(content,
  changes_made)\<close>.
\<close>

definition apply_rule :: "item list \<Rightarrow> string \<Rightarrow> string \<times> bool \<Rightarrow> string \<times> bool" where
  "apply_rule p repl st =
     (if re_search p (fst st) \<noteq> None then (re_sub p repl (fst st), True) else st)"

text \<open>Steps 1 to 4, in the order of the source.\<close>

definition fix_rules :: "string \<Rightarrow> string \<times> bool" where
  "fix_rules original =
     apply_rule trailing_region_pattern []
       (apply_rule incomplete_region_pattern []
         (apply_rule apply_config_pattern []
           (apply_rule get_config_pattern []
             (apply_rule process_frame_pattern process_core_text (original, False)))))"

text \<open>Step 5: \<open>content = content.rstrip() + '\n'\<close>.\<close>

definition fix_content :: "string \<Rightarrow> string" where
  "fix_content original = rstrip (fst (fix_rules original)) @ ''\<newline>''"

section \<open>fix.py: the structure check\<close>

datatype issue = UnmatchedRegions nat nat | IncompleteRegion | NoClosingBrace

text \<open>The three checks of \<open>verify_file_structure\<close>; each appends to \<open>issues\<close>.\<close>

definition structure_issues :: "string \<Rightarrow> issue list" where
  "structure_issues content =
     (let region_count = count_sub ''#region'' content;
          endregion_count = count_sub ''#endregion'' content
      in (if region_count \<noteq> endregion_count
          then [UnmatchedRegions region_count endregion_count] else []) @
         (if contains ''#region Configuration\<newline>\<newline>\<newline>\<newline>#endregion'' content
          then [IncompleteRegion] else []) @
         (if \<not> endswith (strip content) ''}'' then [NoClosingBrace] else []))"

section \<open>Files\<close>

text \<open>
  A path names a regular file or nothing. A file has its text and its permission to be
  read and to be written. The trace lists what was done to the files, in order, and the
  report that \<open>verify_file_structure\<close> prints.
\<close>

record entry =
  contents :: string
  readable :: bool
  writable :: bool

datatype event =
    Copied string string string
  | Wrote string string
  | Verified string "issue list"

record world =
  files :: "string \<rightharpoonup> entry"
  trace :: "event list"

datatype error = FileNotFoundError string | PermissionError string

text \<open>\<open>os.path.exists(p)\<close>\<close>

definition exists_path :: "string \<Rightarrow> world \<Rightarrow> bool" where
  "exists_path p w = (files w p \<noteq> None)"

text \<open>\<open>with open(p, 'r', encoding='utf-8') as f: content = f.read()\<close>\<close>

definition read_text :: "string \<Rightarrow> world \<Rightarrow> error + string" where
  "read_text p w =
     (case files w p of
        None \<Rightarrow> Inl (FileNotFoundError p)
      | Some f \<Rightarrow> if readable f then Inr (contents f) else Inl (PermissionError p))"

text \<open>\<open>with open(p, 'w', encoding='utf-8') as f: f.write(s)\<close>\<close>

definition write_text :: "string \<Rightarrow> string \<Rightarrow> world \<Rightarrow> error + world" where
  "write_text p s w =
     (case files w p of
        None \<Rightarrow>
          Inr (w\<lparr>files := (files w)(p \<mapsto> \<lparr>contents = s, readable = True, writable = True\<rparr>),
                 trace := trace w @ [Wrote p s]\<rparr>)
      | Some f \<Rightarrow>
          if writable f
          then Inr (w\<lparr>files := (files w)(p \<mapsto> f\<lparr>contents := s\<rparr>),
                      trace := trace w @ [Wrote p s]\<rparr>)
          else Inl (PermissionError p))"

text \<open>
  \<open>shutil.copy2(src, dst)\<close>: the stored file is copied, with its permissions; it fails
  when \<open>src\<close> cannot be read or an existing \<open>dst\<close> cannot be written.
\<close>

definition copy2 :: "string \<Rightarrow> string \<Rightarrow> world \<Rightarrow> error + world" where
  "copy2 src dst w =
     (case files w src of
        None \<Rightarrow> Inl (FileNotFoundError src)
      | Some f \<Rightarrow>
          if \<not> readable f then Inl (PermissionError src)
          else if (case files w dst of None \<Rightarrow> False | Some g \<Rightarrow> \<not> writable g)
          then Inl (PermissionError dst)
          else Inr (w\<lparr>files := (files w)(dst \<mapsto> f),
                      trace := trace w @ [Copied src dst (contents f)]\<rparr>))"

section \<open>fix.py: one file and the batch\<close>

text \<open>
  A function of the scripts returns its result, or the exception it raises, together
  with the world it leaves behind.
\<close>

definition verify_file_structure :: "string \<Rightarrow> world \<Rightarrow> (error + unit) \<times> world" where
  "verify_file_structure file_path w =
     (case read_text file_path w of
        Inl e \<Rightarrow> (Inl e, w)
      | Inr content \<Rightarrow>
          (Inr (), w\<lparr>trace := trace w @ [Verified file_path (structure_issues content)]\<rparr>))"

definition fix_effect_file_improved :: "string \<Rightarrow> world \<Rightarrow> (error + bool) \<times> world" where
  "fix_effect_file_improved file_path w =
     (case read_text file_path w of
        Inl e \<Rightarrow> (Inl e, w)
      | Inr original_content \<Rightarrow>
          let content = fix_content original_content in
          if content \<noteq> original_content then
            (case copy2 file_path (file_path @ ''.backup'') w of
               Inl e \<Rightarrow> (Inl e, w)
             | Inr w1 \<Rightarrow>
                (case write_text file_path content w1 of
                   Inl e \<Rightarrow> (Inl e, w1)
                 | Inr w2 \<Rightarrow>
                    (case verify_file_structure file_path w2 of
                       (Inl e, w3) \<Rightarrow> (Inl e, w3)
                     | (Inr u, w3) \<Rightarrow> (Inr True, w3))))
          else (Inr False, w))"

datatype fix_outcome = Success | NoChangesNeeded | FileNotFound

text \<open>
  The loop of \<open>main\<close>: no \<open>try\<close> around the call, so an exception ends the loop. The
  outcomes are the lines printed for the files.
\<close>

fun fix_main_loop :: "string list \<Rightarrow> world \<Rightarrow> (error + fix_outcome list) \<times> world" where
  "fix_main_loop [] w = (Inr [], w)"
| "fix_main_loop (test_file # rest) w =
     (if exists_path test_file w then
        (case fix_effect_file_improved test_file w of
           (Inl e, w1) \<Rightarrow> (Inl e, w1)
         | (Inr success, w1) \<Rightarrow>
            (case fix_main_loop rest w1 of
               (Inl e, w2) \<Rightarrow> (Inl e, w2)
             | (Inr outs, w2) \<Rightarrow>
                (Inr ((if success then Success else NoChangesNeeded) # outs), w2)))
      else
        (case fix_main_loop rest w of
           (Inl e, w2) \<Rightarrow> (Inl e, w2)
         | (Inr outs, w2) \<Rightarrow> (Inr (FileNotFound # outs), w2)))"

definition test_files :: "string list" where
  "test_files =
     [''PhoenixVisualizer.Core/Effects/Nodes/AvsEffects/SVPEffectsNode.cs'',
      ''PhoenixVisualizer.Core/Effects/Nodes/AvsEffects/SimpleEffectsNode.cs'']"

definition fix_main :: "world \<Rightarrow> (error + fix_outcome list) \<times> world" where
  "fix_main w = fix_main_loop test_files w"

section \<open>fix_all_node_canvas_conversions.py\<close>

definition canvas_patterns :: "(item list \<times> string) list" where
  "canvas_patterns =
     [(lit ''Canvas = canvas'', ''Canvas = new SkiaCanvasAdapter(canvas)''),
      (lit ''Canvas = c'', ''Canvas = new SkiaCanvasAdapter(c)''),
      (lit ''Canvas=canvas'', ''Canvas=new SkiaCanvasAdapter(canvas)'')]"

text \<open>
  The \<open>for\<close> loop over the patterns with its \<open>break\<close>: the first pattern found is
  substituted; \<open>None\<close> is \<open>fixed == False\<close>.
\<close>

fun first_pattern :: "(item list \<times> string) list \<Rightarrow> string \<Rightarrow> string option" where
  "first_pattern [] content = None"
| "first_pattern ((pattern, replacement) # ps) content =
     (if re_search pattern content \<noteq> None then Some (re_sub pattern replacement content)
      else first_pattern ps content)"

definition canvas_fix_node_file :: "string \<Rightarrow> world \<Rightarrow> (error + unit) \<times> world" where
  "canvas_fix_node_file file_path w =
     (case read_text file_path w of
        Inl e \<Rightarrow> (Inl e, w)
      | Inr content \<Rightarrow>
          if contains ''SkiaCanvasAdapter'' content then (Inr (), w)
          else
            (case first_pattern canvas_patterns content of
               Some fixed_content \<Rightarrow>
                 (case write_text file_path fixed_content w of
                    Inl e \<Rightarrow> (Inl e, w)
                  | Inr w1 \<Rightarrow> (Inr (), w1))
             | None \<Rightarrow> (Inr (), w)))"

datatype canvas_outcome = Handled | NotFound

fun canvas_main_loop :: "string list \<Rightarrow> world \<Rightarrow> (error + canvas_outcome list) \<times> world" where
  "canvas_main_loop [] w = (Inr [], w)"
| "canvas_main_loop (file_path # rest) w =
     (if exists_path file_path w then
        (case canvas_fix_node_file file_path w of
           (Inl e, w1) \<Rightarrow> (Inl e, w1)
         | (Inr u, w1) \<Rightarrow>
            (case canvas_main_loop rest w1 of
               (Inl e, w2) \<Rightarrow> (Inl e, w2)
             | (Inr outs, w2) \<Rightarrow> (Inr (Handled # outs), w2)))
      else
        (case canvas_main_loop rest w of
           (Inl e, w2) \<Rightarrow> (Inl e, w2)
         | (Inr outs, w2) \<Rightarrow> (Inr (NotFound # outs), w2)))"

section \<open>fix_simple.py and fix_braces.py\<close>

definition render_call :: string where
  "render_call = ''.Render(f.Spectrum, f.Spectrum, new RenderContext { Width = _width, Height = _height, Waveform = f.Spectrum, Spectrum = f.Spectrum, Time = f.Time, Beat = f.Beat, Volume = f.Volume, Canvas = ''"

text \<open>The five \<open>content.replace\<close> calls of fix_simple.py, one definition each.\<close>

definition simple_step1 :: "string \<Rightarrow> string" where
  "simple_step1 = replace ''EffectRegistry.Create('' ''EffectRegistry.CreateByName(''"

definition simple_step2 :: "string \<Rightarrow> string" where
  "simple_step2 = replace ''.Process(f,'' render_call"

definition simple_step3 :: "string \<Rightarrow> string" where
  "simple_step3 =
     replace ''.Process(f, c)''
       ''.Render(f.Spectrum, f.Spectrum, new RenderContext { Width = _width, Height = _height, Waveform = f.Spectrum, Spectrum = f.Spectrum, Time = f.Time, Beat = f.Beat, Volume = f.Volume, Canvas = c })''"

definition simple_step4 :: "string \<Rightarrow> string" where
  "simple_step4 = replace ''Canvas =  canvas);'' ''Canvas = canvas });''"

definition simple_step5 :: "string \<Rightarrow> string" where
  "simple_step5 = replace ''Canvas = c })'' ''Canvas = c });''"

definition simple_transform :: "string \<Rightarrow> string" where
  "simple_transform content =
     simple_step5 (simple_step4 (simple_step3 (simple_step2 (simple_step1 content))))"

definition simple_fix_node_file :: "string \<Rightarrow> world \<Rightarrow> (error + unit) \<times> world" where
  "simple_fix_node_file filepath w =
     (case read_text filepath w of
        Inl e \<Rightarrow> (Inl e, w)
      | Inr content \<Rightarrow>
          (case write_text filepath (simple_transform content) w of
             Inl e \<Rightarrow> (Inl e, w)
           | Inr w1 \<Rightarrow> (Inr (), w1)))"

definition braces_transform :: "string \<Rightarrow> string" where
  "braces_transform content =
     replace ''Canvas =  canvas);'' ''Canvas = canvas });''
       (replace ''Canvas = c);'' ''Canvas = c });'' content)"

definition braces_fix_node_file :: "string \<Rightarrow> world \<Rightarrow> (error + unit) \<times> world" where
  "braces_fix_node_file filepath w =
     (case read_text filepath w of
        Inl e \<Rightarrow> (Inl e, w)
      | Inr content \<Rightarrow>
          (case write_text filepath (braces_transform content) w of
             Inl e \<Rightarrow> (Inl e, w)
           | Inr w1 \<Rightarrow> (Inr (), w1)))"

datatype node_outcome = Fixed | ErrorFixing error

text \<open>
  The loop of \<open>main\<close> in both scripts: \<open>try: fix_node_file(filepath) except Exception\<close>.
  \<open>node_files\<close> is what \<open>glob.glob\<close> returned.
\<close>

fun node_main_loop ::
  "(string \<Rightarrow> world \<Rightarrow> (error + unit) \<times> world) \<Rightarrow> string list \<Rightarrow> world \<Rightarrow>
   node_outcome list \<times> world" where
  "node_main_loop fix_node_file [] w = ([], w)"
| "node_main_loop fix_node_file (filepath # rest) w =
     (case fix_node_file filepath w of
        (Inl e, w1) \<Rightarrow>
          (case node_main_loop fix_node_file rest w1 of
             (outs, w2) \<Rightarrow> (ErrorFixing e # outs, w2))
      | (Inr u, w1) \<Rightarrow>
          (case node_main_loop fix_node_file rest w1 of
             (outs, w2) \<Rightarrow> (Fixed # outs, w2)))"

definition simple_main :: "string list \<Rightarrow> world \<Rightarrow> node_outcome list \<times> world" where
  "simple_main node_files w = node_main_loop simple_fix_node_file node_files w"

definition braces_main :: "string list \<Rightarrow> world \<Rightarrow> node_outcome list \<times> world" where
  "braces_main node_files w = node_main_loop braces_fix_node_file node_files w"

section \<open>Example worlds and auxiliary notions\<close>

text \<open>A path can be written when nothing is stored there or the stored file is writable.\<close>

definition writable_path :: "string \<Rightarrow> world \<Rightarrow> bool" where
  "writable_path p w = (case files w p of None \<Rightarrow> True | Some g \<Rightarrow> writable g)"

definition plain :: "string \<Rightarrow> entry" where
  "plain s = \<lparr>contents = s, readable = True, writable = True\<rparr>"

definition region_world :: world where
  "region_world = \<lparr>files = [''Node.cs'' \<mapsto> plain ''#region x''], trace = []\<rparr>"

definition region_world_fixed :: world where
  "region_world_fixed =
     \<lparr>files = [''Node.cs.backup'' \<mapsto> plain ''#region x'',
                ''Node.cs'' \<mapsto> plain ''#region x\<newline>''],
       trace = [Copied ''Node.cs'' ''Node.cs.backup'' ''#region x'',
                Wrote ''Node.cs'' ''#region x\<newline>'',
                Verified ''Node.cs'' [UnmatchedRegions 1 0, NoClosingBrace]]\<rparr>"

definition canvas_world :: world where
  "canvas_world = \<lparr>files = [''Node.cs'' \<mapsto> plain ''Canvas = canvas)''], trace = []\<rparr>"

definition brace_world :: world where
  "brace_world = \<lparr>files = [''Node.cs'' \<mapsto> plain ''}\<newline>''], trace = []\<rparr>"

definition untidy_world :: world where
  "untidy_world = \<lparr>files = [''Node.cs'' \<mapsto> plain ''}  \<newline>\<newline>''], trace = []\<rparr>"

definition unreadable_world :: world where
  "unreadable_world =
     \<lparr>files =
        [''PhoenixVisualizer.Core/Effects/Nodes/AvsEffects/SVPEffectsNode.cs'' \<mapsto>
           \<lparr>contents = ''}'', readable = False, writable = True\<rparr>,
         ''PhoenixVisualizer.Core/Effects/Nodes/AvsEffects/SimpleEffectsNode.cs'' \<mapsto>
           plain ''}''],
      trace = []\<rparr>"

definition untidy_world_fixed :: world where
  "untidy_world_fixed =
     \<lparr>files = [''Node.cs.backup'' \<mapsto> plain ''}  \<newline>\<newline>'',
                ''Node.cs'' \<mapsto> plain ''}\<newline>''],
       trace = [Copied ''Node.cs'' ''Node.cs.backup'' ''}  \<newline>\<newline>'',
                Wrote ''Node.cs'' ''}\<newline>'',
                Verified ''Node.cs'' []]\<rparr>"

definition two_files_world :: world where
  "two_files_world =
     \<lparr>files = [''A.cs'' \<mapsto> \<lparr>contents = ''a'', readable = False, writable = True\<rparr>,
                ''B.cs'' \<mapsto> plain ''Canvas = c);''],
      trace = []\<rparr>"

text \<open>
  The closer that the specification asks a body pattern to stop at, following its words
  ("the first closing delimiter at which nesting returns to depth zero"):
  \<open>spec_balanced_end d i s\<close> is the position just after that closer, counted from \<open>i\<close>,
  with \<open>d\<close> braces open so far.
\<close>

fun spec_balanced_end :: "nat \<Rightarrow> nat \<Rightarrow> string \<Rightarrow> nat option" where
  "spec_balanced_end d i [] = None"
| "spec_balanced_end d i (c # cs) =
     (if c = CHR ''{'' then spec_balanced_end (Suc d) (Suc i) cs
      else if c = CHR ''}'' then
        (if d = Suc 0 then Some (Suc i) else spec_balanced_end (d - 1) (Suc i) cs)
      else spec_balanced_end d (Suc i) cs)"

text \<open>
  A class whose \<open>ProcessFrame\<close> method has a nested block, and what \<open>fix.py\<close> makes of
  it.
\<close>

definition nested_class :: string where
  "nested_class =
     ''class N\<newline>{\<newline>    public override void ProcessFrame(int x)\<newline>    {\<newline>        for (;;) { a(); }\<newline>        Draw();\<newline>    }\<newline>}\<newline>''"

definition nested_class_fixed :: string where
  "nested_class_fixed =
     ''class N\<newline>{\<newline>    '' @ process_core_text @
     ''\<newline>        Draw();\<newline>    }\<newline>}\<newline>''"

text \<open>A \<open>ProcessFrame\<close> method as the first pattern sees it.\<close>

definition frame_block :: "string \<Rightarrow> string \<Rightarrow> string \<Rightarrow> string" where
  "frame_block args ws body =
     ''public override void ProcessFrame('' @ args @ '')'' @ ws @ ''{'' @ body @ ''}''"

definition two_methods :: string where
  "two_methods =
     ''public override void ProcessFrame(int x) { a(); } public override void ProcessFrame() { b(); }''"

definition two_methods_apart :: string where
  "two_methods_apart =
     ''public override void ProcessFrame(int x) { a(); } private int n; public override void ProcessFrame() { b(); }''"

text \<open>
  Two texts agree when one is a prefix of the other. \<open>starts_free old x\<close>: in no text
  can an occurrence of \<open>old\<close> start inside an occurrence of \<open>x\<close>.
\<close>

definition agree :: "string \<Rightarrow> string \<Rightarrow> bool" where
  "agree u v = (prefix u v \<or> prefix v u)"

fun starts_free :: "string \<Rightarrow> string \<Rightarrow> bool" where
  "starts_free old [] = True"
| "starts_free old (c # cs) = (\<not> agree old (c # cs) \<and> starts_free old cs)"

declare replace.simps [simp del] count_sub.simps [simp del] re_sub.simps [simp del]

section \<open>Facts about the text primitives\<close>

lemma re_match_length: "re_match r s = Some t \<Longrightarrow> length t \<le> length s"
  by (induction r s arbitrary: t rule: re_match.induct)
     (fastforce split: if_splits option.splits)+


section \<open>Facts about one run of fix.py on a file\<close>

lemma fix_effect_unchanged:
  "read_text p w = Inr orig \<Longrightarrow> fix_content orig = orig \<Longrightarrow>
   fix_effect_file_improved p w = (Inr False, w)"
  by (simp add: fix_effect_file_improved_def)

lemma fix_effect_changed:
  assumes "files w p = Some f" "readable f" "writable f" "writable_path (p @ ''.backup'') w"
    and "fix_content (contents f) \<noteq> contents f"
  shows "fix_effect_file_improved p w =
     (Inr True,
      w\<lparr>files := (files w)(p @ ''.backup'' \<mapsto> f, p \<mapsto> f\<lparr>contents := fix_content (contents f)\<rparr>),
        trace := trace w @
          [Copied p (p @ ''.backup'') (contents f),
           Wrote p (fix_content (contents f)),
           Verified p (structure_issues (fix_content (contents f)))]\<rparr>)"
  using assms
  by (simp add: fix_effect_file_improved_def read_text_def copy2_def write_text_def
      verify_file_structure_def writable_path_def Let_def split: option.splits)

lemma apply_rule_not_fired: "\<not> snd (apply_rule p repl st) \<Longrightarrow> apply_rule p repl st = st"
  by (auto simp: apply_rule_def split: if_splits)

lemma fix_rules_not_fired: "\<not> snd (fix_rules orig) \<Longrightarrow> fst (fix_rules orig) = orig"
proof -
  assume a: "\<not> snd (fix_rules orig)"
  define s1 where "s1 = apply_rule process_frame_pattern process_core_text (orig, False)"
  define s2 where "s2 = apply_rule get_config_pattern [] s1"
  define s3 where "s3 = apply_rule apply_config_pattern [] s2"
  define s4 where "s4 = apply_rule incomplete_region_pattern [] s3"
  define s5 where "s5 = apply_rule trailing_region_pattern [] s4"
  have e: "fix_rules orig = s5"
    by (simp add: fix_rules_def s1_def s2_def s3_def s4_def s5_def)
  from a e have n5: "\<not> snd s5" by simp
  then have e5: "s5 = s4" unfolding s5_def by (rule apply_rule_not_fired)
  from n5 e5 have n4: "\<not> snd s4" by simp
  then have e4: "s4 = s3" unfolding s4_def by (rule apply_rule_not_fired)
  from n4 e4 have n3: "\<not> snd s3" by simp
  then have e3: "s3 = s2" unfolding s3_def by (rule apply_rule_not_fired)
  from n3 e3 have n2: "\<not> snd s2" by simp
  then have e2: "s2 = s1" unfolding s2_def by (rule apply_rule_not_fired)
  from n2 e2 have n1: "\<not> snd s1" by simp
  then have e1: "s1 = (orig, False)" unfolding s1_def by (rule apply_rule_not_fired)
  from e e5 e4 e3 e2 e1 show ?thesis by simp
qed

lemma fix_content_region: "fix_content ''#region x'' = ''#region x\<newline>''"
  by code_simp

lemma structure_issues_region:
  "structure_issues ''#region x\<newline>'' = [UnmatchedRegions 1 0, NoClosingBrace]"
  by code_simp

lemma region_world_run:
  "fix_effect_file_improved ''Node.cs'' region_world = (Inr True, region_world_fixed)"
  by (simp add: fix_effect_file_improved_def read_text_def copy2_def write_text_def
      verify_file_structure_def Let_def region_world_def region_world_fixed_def plain_def
      fix_content_region structure_issues_region)

lemma fix_content_brace: "fix_content ''}'' = ''}\<newline>''"
  by code_simp

lemma fix_content_brace_nl: "fix_content ''}\<newline>'' = ''}\<newline>''"
  by code_simp

lemma fix_content_untidy: "fix_content ''}  \<newline>\<newline>'' = ''}\<newline>''"
  by code_simp

lemma fix_rules_untidy: "fix_rules ''}  \<newline>\<newline>'' = (''}  \<newline>\<newline>'', False)"
  by code_simp

lemma structure_issues_brace: "structure_issues ''}\<newline>'' = []"
  by code_simp

lemma first_pattern_brace: "first_pattern canvas_patterns ''}\<newline>'' = None"
  by code_simp

lemma first_pattern_canvas:
  "first_pattern canvas_patterns ''Canvas = canvas)'' =
     Some ''Canvas = new SkiaCanvasAdapter(canvas))''"
  by code_simp

lemma contains_adapter_canvas: "\<not> contains ''SkiaCanvasAdapter'' ''Canvas = canvas)''"
  by code_simp

lemma braces_transform_brace: "braces_transform ''}\<newline>'' = ''}\<newline>''"
  by code_simp

lemma simple_transform_brace: "simple_transform ''}\<newline>'' = ''}\<newline>''"
  by code_simp

section \<open>Backup before write\<close>

text \<open>
  C1 (as amended). Whatever a run of \<open>fix_effect_file_improved\<close> on a path returns, what
  it adds to the trace is nothing, or the backup copy alone (the write failed), or the
  backup copy followed by the write and the structure report. So the write is always
  preceded by a copy of the stored text to \<open>path + ".backup"\<close>, and after the write the
  backup holds the text that was stored before the run.
\<close>

theorem fix_effect_backup_before_write:
  assumes "fix_effect_file_improved p w = (r, w')"
  shows "\<exists>t. trace w' = trace w @ t \<and>
     (t = [] \<and> files w' = files w \<or>
      (\<exists>f. files w p = Some f \<and>
         (t = [Copied p (p @ ''.backup'') (contents f)] \<and> files w' p = files w p \<or>
          t = [Copied p (p @ ''.backup'') (contents f),
               Wrote p (fix_content (contents f)),
               Verified p (structure_issues (fix_content (contents f)))] \<and>
          map_option contents (files w' (p @ ''.backup'')) = Some (contents f) \<and>
          map_option contents (files w' p) = Some (fix_content (contents f)))))"
  using assms
  by (auto simp: fix_effect_file_improved_def read_text_def copy2_def write_text_def
      verify_file_structure_def Let_def split: option.splits if_splits sum.splits)

theorem fix_effect_backup_before_write_witness:
  "fix_effect_file_improved ''Node.cs'' region_world = (Inr True, region_world_fixed) \<and>
   (\<exists>t. trace region_world_fixed = trace region_world @ t \<and>
     (t = [] \<and> files region_world_fixed = files region_world \<or>
      (\<exists>f. files region_world ''Node.cs'' = Some f \<and>
         (t = [Copied ''Node.cs'' (''Node.cs'' @ ''.backup'') (contents f)] \<and>
            files region_world_fixed ''Node.cs'' = files region_world ''Node.cs'' \<or>
          t = [Copied ''Node.cs'' (''Node.cs'' @ ''.backup'') (contents f),
               Wrote ''Node.cs'' (fix_content (contents f)),
               Verified ''Node.cs'' (structure_issues (fix_content (contents f)))] \<and>
          map_option contents (files region_world_fixed (''Node.cs'' @ ''.backup'')) =
            Some (contents f) \<and>
          map_option contents (files region_world_fixed ''Node.cs'') =
            Some (fix_content (contents f))))))"
  using fix_effect_backup_before_write [OF region_world_run] region_world_run
  by (rule conjI [rotated])

text \<open>
  The claim as stated fails on fix_all_node_canvas_conversions.py: its \<open>fix_node_file\<close>
  writes the substituted text and copies nothing.
\<close>

theorem canvas_write_without_backup_counterexample:
  "trace (snd (canvas_fix_node_file ''Node.cs'' canvas_world)) =
     [Wrote ''Node.cs'' ''Canvas = new SkiaCanvasAdapter(canvas))''] \<and>
   files (snd (canvas_fix_node_file ''Node.cs'' canvas_world)) ''Node.cs.backup'' = None"
  by (simp add: canvas_fix_node_file_def read_text_def write_text_def canvas_world_def
      plain_def first_pattern_canvas contains_adapter_canvas)

section \<open>Writing only after a change\<close>

text \<open>
  C2 (as amended). \<open>fix_effect_file_improved\<close> (fix.py) leaves the world as it was
  when the transformed text equals the text read, and \<open>fix_node_file\<close> of
  fix_all_node_canvas_conversions.py leaves it as it was when the text already uses the
  adapter or no pattern is found. fix_braces.py and fix_simple.py have no such test:
  every file that can be read and written is written, with the transformed text.
\<close>

theorem write_only_when_changed:
  "(read_text p w = Inr orig \<and> fix_content orig = orig \<longrightarrow>
      fix_effect_file_improved p w = (Inr False, w)) \<and>
   (read_text p w = Inr orig \<and>
      (contains ''SkiaCanvasAdapter'' orig \<or> first_pattern canvas_patterns orig = None) \<longrightarrow>
      canvas_fix_node_file p w = (Inr (), w)) \<and>
   (read_text p w = Inr orig \<and> writable_path p w \<longrightarrow>
      trace (snd (braces_fix_node_file p w)) = trace w @ [Wrote p (braces_transform orig)] \<and>
      trace (snd (simple_fix_node_file p w)) = trace w @ [Wrote p (simple_transform orig)])"
  by (auto simp: fix_effect_unchanged canvas_fix_node_file_def braces_fix_node_file_def
      simple_fix_node_file_def write_text_def writable_path_def split: option.splits)

theorem write_only_when_changed_witness:
  "read_text ''Node.cs'' brace_world = Inr ''}\<newline>'' \<and>
   fix_content ''}\<newline>'' = ''}\<newline>'' \<and>
   first_pattern canvas_patterns ''}\<newline>'' = None \<and>
   writable_path ''Node.cs'' brace_world \<and>
   fix_effect_file_improved ''Node.cs'' brace_world = (Inr False, brace_world) \<and>
   canvas_fix_node_file ''Node.cs'' brace_world = (Inr (), brace_world) \<and>
   trace (snd (braces_fix_node_file ''Node.cs'' brace_world)) =
     trace brace_world @ [Wrote ''Node.cs'' (braces_transform ''}\<newline>'')] \<and>
   trace (snd (simple_fix_node_file ''Node.cs'' brace_world)) =
     trace brace_world @ [Wrote ''Node.cs'' (simple_transform ''}\<newline>'')]"
proof -
  have r: "read_text ''Node.cs'' brace_world = Inr ''}\<newline>''"
    by (simp add: read_text_def brace_world_def plain_def)
  have wp: "writable_path ''Node.cs'' brace_world"
    by (simp add: writable_path_def brace_world_def plain_def)
  show ?thesis
    using write_only_when_changed [of "''Node.cs''" brace_world "''}\<newline>''"]
      r wp fix_content_brace_nl first_pattern_brace
    by simp
qed

text \<open>
  The claim as stated fails on fix_braces.py: nothing in the text is replaced, and the
  file is written all the same.
\<close>

theorem braces_writes_unchanged_counterexample:
  "braces_transform ''}\<newline>'' = ''}\<newline>'' \<and>
   trace (snd (braces_fix_node_file ''Node.cs'' brace_world)) =
     [Wrote ''Node.cs'' ''}\<newline>'']"
  by (simp add: braces_transform_brace braces_fix_node_file_def read_text_def write_text_def
      brace_world_def plain_def)

section \<open>Normalisation counts as a change\<close>

text \<open>
  C4 (as amended). The flag \<open>changes_made\<close> is set by the rules and never read: the
  decision to back up and write is \<open>content != original_content\<close>, taken after the final
  \<open>rstrip() + '\n'\<close>. When no rule fires, the new text is the old one normalised, and the
  run reports "no changes" exactly when the text read is already normalised.
\<close>

theorem fix_effect_changed_by_normalisation:
  assumes "\<not> snd (fix_rules orig)" and "read_text p w = Inr orig"
  shows "fix_content orig = rstrip orig @ ''\<newline>'' \<and>
         (fix_effect_file_improved p w = (Inr False, w)) = (orig = rstrip orig @ ''\<newline>'')"
proof -
  from assms(1) have c: "fix_content orig = rstrip orig @ ''\<newline>''"
    by (simp add: fix_content_def fix_rules_not_fired)
  have ne: "fix_effect_file_improved p w \<noteq> (Inr False, w)" if "orig \<noteq> rstrip orig @ ''\<newline>''"
    using that assms(2) c
    by (auto simp: fix_effect_file_improved_def Let_def verify_file_structure_def
        split: sum.splits prod.splits)
  show ?thesis
  proof (cases "orig = rstrip orig @ ''\<newline>''")
    case True
    with c assms(2) show ?thesis by (simp add: fix_effect_unchanged)
  next
    case False
    with c ne show ?thesis by simp
  qed
qed

theorem fix_effect_changed_by_normalisation_witness:
  "\<not> snd (fix_rules ''}\<newline>'') \<and> read_text ''Node.cs'' brace_world = Inr ''}\<newline>'' \<and>
   fix_content ''}\<newline>'' = rstrip ''}\<newline>'' @ ''\<newline>'' \<and>
   (fix_effect_file_improved ''Node.cs'' brace_world = (Inr False, brace_world)) =
     (''}\<newline>'' = rstrip ''}\<newline>'' @ ''\<newline>'')"
proof -
  have n: "\<not> snd (fix_rules ''}\<newline>'')" by code_simp
  have r: "read_text ''Node.cs'' brace_world = Inr ''}\<newline>''"
    by (simp add: read_text_def brace_world_def plain_def)
  show ?thesis
    using fix_effect_changed_by_normalisation [OF n r] n r by simp
qed

text \<open>
  The claim as stated fails: on a text that differs from its normal form in trailing
  whitespace only, no rule fires, and the file is backed up and rewritten.
\<close>

theorem whitespace_only_change_counterexample:
  "fix_rules ''}  \<newline>\<newline>'' = (''}  \<newline>\<newline>'', False) \<and>
   fix_effect_file_improved ''Node.cs'' untidy_world = (Inr True, untidy_world_fixed)"
  by (simp add: fix_rules_untidy fix_effect_file_improved_def read_text_def copy2_def
      write_text_def verify_file_structure_def Let_def untidy_world_def untidy_world_fixed_def
      plain_def fix_content_untidy structure_issues_brace)

section \<open>The structure check never stops the write\<close>

text \<open>
  C8. When the stored file can be read and written, the backup path can be written and
  the transformed text differs from the stored one, the run returns \<open>True\<close>: the new text
  is stored, and the structure report comes after the write in the trace, whatever it
  holds. The report lists every failing check: each of the three issues is in it exactly
  when its own check fails.
\<close>

theorem verifier_never_blocks_write:
  assumes "files w p = Some f" "readable f" "writable f" "writable_path (p @ ''.backup'') w"
    and "fix_content (contents f) \<noteq> contents f"
  shows "\<exists>w'. fix_effect_file_improved p w = (Inr True, w') \<and>
           map_option contents (files w' p) = Some (fix_content (contents f)) \<and>
           trace w' = trace w @
             [Copied p (p @ ''.backup'') (contents f),
              Wrote p (fix_content (contents f)),
              Verified p (structure_issues (fix_content (contents f)))] \<and>
           fst (verify_file_structure p w') = Inr () \<and>
           (UnmatchedRegions a b \<in> set (structure_issues c)) =
             (a = count_sub ''#region'' c \<and> b = count_sub ''#endregion'' c \<and> a \<noteq> b) \<and>
           (IncompleteRegion \<in> set (structure_issues c)) =
             contains ''#region Configuration\<newline>\<newline>\<newline>\<newline>#endregion'' c \<and>
           (NoClosingBrace \<in> set (structure_issues c)) = (\<not> endswith (strip c) ''}'')"
proof -
  have i: "(UnmatchedRegions a b \<in> set (structure_issues c)) =
             (a = count_sub ''#region'' c \<and> b = count_sub ''#endregion'' c \<and> a \<noteq> b)"
    "(IncompleteRegion \<in> set (structure_issues c)) =
             contains ''#region Configuration\<newline>\<newline>\<newline>\<newline>#endregion'' c"
    "(NoClosingBrace \<in> set (structure_issues c)) = (\<not> endswith (strip c) ''}'')"
    by (auto simp: structure_issues_def Let_def)
  show ?thesis
    unfolding fix_effect_changed [OF assms]
    using assms(2) i
    by (simp add: verify_file_structure_def read_text_def)
qed

theorem verifier_never_blocks_write_witness:
  "files region_world ''Node.cs'' = Some (plain ''#region x'') \<and>
   readable (plain ''#region x'') \<and> writable (plain ''#region x'') \<and>
   writable_path (''Node.cs'' @ ''.backup'') region_world \<and>
   fix_content (contents (plain ''#region x'')) \<noteq> contents (plain ''#region x'') \<and>
   structure_issues (fix_content (contents (plain ''#region x''))) =
     [UnmatchedRegions 1 0, NoClosingBrace] \<and>
   (\<exists>w'. fix_effect_file_improved ''Node.cs'' region_world = (Inr True, w') \<and>
      map_option contents (files w' ''Node.cs'') = Some (fix_content (contents (plain ''#region x''))) \<and>
      trace w' = trace region_world @
        [Copied ''Node.cs'' (''Node.cs'' @ ''.backup'') (contents (plain ''#region x'')),
         Wrote ''Node.cs'' (fix_content (contents (plain ''#region x''))),
         Verified ''Node.cs'' (structure_issues (fix_content (contents (plain ''#region x''))))] \<and>
      fst (verify_file_structure ''Node.cs'' w') = Inr ())"
proof -
  have 1: "files region_world ''Node.cs'' = Some (plain ''#region x'')"
    by (simp add: region_world_def)
  have 2: "readable (plain ''#region x'')" and 3: "writable (plain ''#region x'')"
    by (simp_all add: plain_def)
  have 4: "writable_path (''Node.cs'' @ ''.backup'') region_world"
    by (simp add: writable_path_def region_world_def)
  have 5: "fix_content (contents (plain ''#region x'')) \<noteq> contents (plain ''#region x'')"
    by (simp add: plain_def fix_content_region)
  have 6: "structure_issues (fix_content (contents (plain ''#region x''))) =
     [UnmatchedRegions 1 0, NoClosingBrace]"
    by (simp add: plain_def fix_content_region structure_issues_region)
  from verifier_never_blocks_write [OF 1 2 3 4 5]
  obtain w' where "fix_effect_file_improved ''Node.cs'' region_world = (Inr True, w')"
    "map_option contents (files w' ''Node.cs'') = Some (fix_content (contents (plain ''#region x'')))"
    "trace w' = trace region_world @
        [Copied ''Node.cs'' (''Node.cs'' @ ''.backup'') (contents (plain ''#region x'')),
         Wrote ''Node.cs'' (fix_content (contents (plain ''#region x''))),
         Verified ''Node.cs'' (structure_issues (fix_content (contents (plain ''#region x''))))]"
    "fst (verify_file_structure ''Node.cs'' w') = Inr ()"
    by blast
  with 1 2 3 4 5 6 show ?thesis by blast
qed

section \<open>Failures inside the batch\<close>

lemma node_main_loop_append:
  "node_main_loop f (ps @ qs) w =
     (case node_main_loop f ps w of
        (outs1, w1) \<Rightarrow>
          (case node_main_loop f qs w1 of
             (outs2, w2) \<Rightarrow> (outs1 @ outs2, w2)))"
  by (induction ps arbitrary: w) (auto split: prod.splits sum.splits)

text \<open>
  C7 (as amended). In fix_simple.py and fix_braces.py the call is inside
  \<open>try ... except Exception\<close>: the loop never raises, and a path \<open>q\<close> anywhere in the list
  is processed in the world its predecessors left, its outcome (fixed, or the error) is
  recorded for it alone, and the paths after it are processed in turn.
\<close>

theorem node_main_isolates_failures:
  "simple_main (ps @ q # qs) w =
     (case simple_main ps w of
        (outs1, w1) \<Rightarrow>
          (case simple_fix_node_file q w1 of
             (r, w2) \<Rightarrow>
               (case simple_main qs w2 of
                  (outs2, w3) \<Rightarrow>
                    (outs1 @ (case r of Inl e \<Rightarrow> ErrorFixing e | Inr u \<Rightarrow> Fixed) # outs2, w3))))
   \<and> braces_main (ps @ q # qs) w =
     (case braces_main ps w of
        (outs1, w1) \<Rightarrow>
          (case braces_fix_node_file q w1 of
             (r, w2) \<Rightarrow>
               (case braces_main qs w2 of
                  (outs2, w3) \<Rightarrow>
                    (outs1 @ (case r of Inl e \<Rightarrow> ErrorFixing e | Inr u \<Rightarrow> Fixed) # outs2, w3))))"
  unfolding simple_main_def braces_main_def
  by (simp add: node_main_loop_append split: prod.splits sum.splits)

lemma braces_transform_canvas: "braces_transform ''Canvas = c);'' = ''Canvas = c });''"
  by code_simp

theorem node_main_isolates_failures_witness:
  "braces_main ([] @ ''A.cs'' # [''B.cs'']) two_files_world =
     ([ErrorFixing (PermissionError ''A.cs''), Fixed],
      two_files_world
        \<lparr>files := (files two_files_world)(''B.cs'' \<mapsto> plain ''Canvas = c });''),
         trace := [Wrote ''B.cs'' ''Canvas = c });'']\<rparr>)"
proof -
  have a: "braces_fix_node_file ''A.cs'' two_files_world =
      (Inl (PermissionError ''A.cs''), two_files_world)"
    by (simp add: braces_fix_node_file_def read_text_def two_files_world_def)
  have b: "braces_fix_node_file ''B.cs'' two_files_world =
      (Inr (), two_files_world
        \<lparr>files := (files two_files_world)(''B.cs'' \<mapsto> plain ''Canvas = c });''),
         trace := [Wrote ''B.cs'' ''Canvas = c });'']\<rparr>)"
    by (simp add: braces_fix_node_file_def read_text_def write_text_def two_files_world_def
        plain_def braces_transform_canvas)
  have n: "braces_main [] w = ([], w)" for w
    by (simp add: braces_main_def)
  have s: "braces_main [p] w =
      (case braces_fix_node_file p w of (r, w') \<Rightarrow>
         ([case r of Inl e \<Rightarrow> ErrorFixing e | Inr u \<Rightarrow> Fixed], w'))" for p w
    by (simp add: braces_main_def split: prod.splits sum.splits)
  from node_main_isolates_failures [of "[]" "''A.cs''" "[''B.cs'']" two_files_world]
  show ?thesis by (simp add: n s a b)
qed

text \<open>
  The claim as stated fails on fix.py: \<open>main\<close> guards the call with \<open>os.path.exists\<close>
  only. The first file exists and cannot be read, the exception leaves the loop, and the
  second file, which a run on it alone would fix, is never touched.
\<close>

theorem fix_main_aborts_counterexample:
  "fix_main unreadable_world =
     (Inl (PermissionError ''PhoenixVisualizer.Core/Effects/Nodes/AvsEffects/SVPEffectsNode.cs''),
      unreadable_world) \<and>
   fst (fix_effect_file_improved
          ''PhoenixVisualizer.Core/Effects/Nodes/AvsEffects/SimpleEffectsNode.cs''
          unreadable_world) = Inr True"
  by (simp add: fix_main_def test_files_def unreadable_world_def exists_path_def
      fix_effect_file_improved_def read_text_def fix_content_brace copy2_def write_text_def
      verify_file_structure_def Let_def plain_def)

section \<open>The span that \<open>re.search\<close> answers\<close>

lemma re_match_suffix: "re_match r s = Some t \<Longrightarrow> suffix t s"
proof (induction r s arbitrary: t rule: re_match.induct)
  case (5 c r x xs)
  then show ?case
    by (auto split: if_splits option.splits intro: suffix_ConsI)
qed (auto split: if_splits intro: suffix_ConsI)

lemma re_match_drop:
  assumes "re_match r s = Some t"
  shows "drop (length s - length t) s = t"
proof -
  from re_match_suffix [OF assms] obtain m where "s = m @ t"
    by (auto simp: suffix_def)
  then show ?thesis by simp
qed

lemma re_search_span:
  "re_search r s = Some (i, j) \<Longrightarrow>
   i \<le> j \<and> j \<le> length s \<and> re_match r (drop i s) = Some (drop j s)"
proof (induction s arbitrary: i j)
  case Nil
  then show ?case
    by (auto split: option.splits dest: re_match_length)
next
  case (Cons c cs)
  show ?case
  proof (cases "re_match r (c # cs)")
    case None
    with Cons.prems obtain i' j' where "re_search r cs = Some (i', j')" "i = Suc i'" "j = Suc j'"
      by auto
    with Cons.IH [of i' j'] show ?thesis by simp
  next
    case (Some t)
    with Cons.prems have ij: "i = 0" "j = length (c # cs) - length t"
      by auto
    from re_match_drop [OF Some] ij Some show ?thesis
      by simp
  qed
qed

lemma re_match_nonempty: "re_match (One c # r) s = Some t \<Longrightarrow> length t < length s"
  by (cases s) (auto split: if_splits dest: re_match_length)

lemma re_search_nonempty:
  assumes "re_search (One c # r) s = Some (i, j)"
  shows "i < j"
proof -
  from re_search_span [OF assms] have s: "i \<le> j" "j \<le> length s"
    "re_match (One c # r) (drop i s) = Some (drop j s)" by auto
  from re_match_nonempty [OF s(3)] s(1,2) show ?thesis by simp
qed

lemma re_match_lit_prefix: "re_match (lit u @ r) s = Some t \<Longrightarrow> prefix u s"
proof (induction u arbitrary: s)
  case Nil
  then show ?case by simp
next
  case (Cons a u)
  then show ?case
    by (cases s) (auto simp: lit_def split: if_splits)
qed

lemma re_search_lit_none:
  "u \<noteq> [] \<Longrightarrow> \<not> contains u s \<Longrightarrow> re_search (lit u @ r) s = None"
proof (induction s)
  case Nil
  then show ?case
    by (cases u) (auto simp: lit_def)
next
  case (Cons c cs)
  from Cons.prems have "re_match (lit u @ r) (c # cs) = None"
    using re_match_lit_prefix [of u r "c # cs"] by (cases "re_match (lit u @ r) (c # cs)") auto
  with Cons show ?case by simp
qed

section \<open>What \<open>re.sub\<close> does with the matches\<close>

lemma re_sub_none: "re_search r s = None \<Longrightarrow> re_sub r repl s = s"
proof (induction s)
  case Nil
  then show ?case by (simp add: re_sub.simps [of r repl "[]"] split: option.splits)
next
  case (Cons c cs)
  then show ?case
    by (simp add: re_sub.simps [of r repl "c # cs"] split: option.splits)
qed

lemma re_sub_first:
  "re_search r s = Some (i, j) \<Longrightarrow> i < j \<Longrightarrow>
   re_sub r repl s = take i s @ repl @ re_sub r repl (drop j s)"
proof (induction s arbitrary: i j)
  case Nil
  then show ?case by (simp split: option.splits)
next
  case (Cons c cs)
  show ?case
  proof (cases "re_match r (c # cs)")
    case None
    with Cons.prems obtain i' j' where ij: "re_search r cs = Some (i', j')" "i = Suc i'" "j = Suc j'"
      by auto
    with Cons.prems have "i' < j'" by simp
    from Cons.IH [OF ij(1) this] None ij show ?thesis
      by (simp add: re_sub.simps [of r repl "c # cs"])
  next
    case (Some t)
    with Cons.prems have ij: "i = 0" "j = length (c # cs) - length t"
      by auto
    with Cons.prems have "length t < length (c # cs)" by simp
    with Some ij re_match_drop [OF Some] show ?thesis
      by (simp add: re_sub.simps [of r repl "c # cs"])
  qed
qed

lemma rstrip_ends:
  assumes "\<not> is_space c" "list_all is_space ws"
  shows "rstrip (xs @ c # ws) = xs @ [c]"
proof -
  from assms(2) have "dropWhile is_space (rev ws @ c # rev xs) = dropWhile is_space (c # rev xs)"
    by (intro dropWhile_append2) (simp add: list_all_iff)
  with assms(1) show ?thesis
    by (simp add: rstrip_def)
qed

section \<open>A second run of fix_all_node_canvas_conversions.py\<close>

lemma contains_sublist: "contains p s = sublist p s"
  by (induction s) (auto simp: sublist_Cons_right)

lemma contains_inside: "contains p m \<Longrightarrow> contains p (a @ m @ b)"
  unfolding contains_sublist
  by (meson sublist_appendI sublist_order.order_trans)

lemma re_sub_has_repl:
  "re_search r s \<noteq> None \<Longrightarrow> \<exists>a b. re_sub r repl s = a @ repl @ b"
proof (induction s)
  case Nil
  then have "re_sub r repl [] = [] @ repl @ []"
    by (auto simp: re_sub.simps split: option.splits)
  then show ?case by blast
next
  case (Cons c cs)
  show ?case
  proof (cases "re_match r (c # cs)")
    case None
    with Cons.prems have "re_search r cs \<noteq> None" by auto
    from Cons.IH [OF this] obtain a b where "re_sub r repl cs = a @ repl @ b" by blast
    with None have "re_sub r repl (c # cs) = (c # a) @ repl @ b"
      by (simp add: re_sub.simps [of r repl "c # cs"])
    then show ?thesis by blast
  next
    case (Some t)
    then have "\<exists>b. re_sub r repl (c # cs) = [] @ repl @ b"
      by (simp add: re_sub.simps [of r repl "c # cs"])
    then show ?thesis by blast
  qed
qed

lemma first_pattern_adapter:
  assumes "first_pattern canvas_patterns c = Some c'"
  shows "contains ''SkiaCanvasAdapter'' c'"
proof -
  have k: "contains ''SkiaCanvasAdapter'' ''Canvas = new SkiaCanvasAdapter(canvas)''"
    "contains ''SkiaCanvasAdapter'' ''Canvas = new SkiaCanvasAdapter(c)''"
    "contains ''SkiaCanvasAdapter'' ''Canvas=new SkiaCanvasAdapter(canvas)''"
    by code_simp+
  from assms obtain pat repl where pr: "(pat, repl) \<in> set canvas_patterns"
    "re_search pat c \<noteq> None" "c' = re_sub pat repl c"
    by (auto simp: canvas_patterns_def split: if_splits)
  from pr(1) k have "contains ''SkiaCanvasAdapter'' repl"
    by (auto simp: canvas_patterns_def)
  moreover from re_sub_has_repl [OF pr(2)] pr(3) obtain a b where "c' = a @ repl @ b"
    by blast
  ultimately show ?thesis
    by (simp add: contains_inside)
qed

text \<open>
  C3 (as amended). fix_all_node_canvas_conversions.py is idempotent: a pattern that fires
  leaves \<open>SkiaCanvasAdapter\<close> in the text, which the guard at the top of
  \<open>fix_node_file\<close> finds on the next run. So a second run on the same path leaves the
  files and the trace exactly as the first run left them.
\<close>

theorem canvas_fix_idempotent:
  "snd (canvas_fix_node_file p (snd (canvas_fix_node_file p w))) =
     snd (canvas_fix_node_file p w) \<and>
   (first_pattern canvas_patterns c = Some c' \<longrightarrow> contains ''SkiaCanvasAdapter'' c')"
proof -
  have "snd (canvas_fix_node_file p (snd (canvas_fix_node_file p w))) =
     snd (canvas_fix_node_file p w)"
  proof (cases "read_text p w")
    case (Inl e)
    then show ?thesis by (simp add: canvas_fix_node_file_def)
  next
    case (Inr content)
    show ?thesis
    proof (cases "contains ''SkiaCanvasAdapter'' content")
      case True
      with Inr show ?thesis by (simp add: canvas_fix_node_file_def)
    next
      case False
      show ?thesis
      proof (cases "first_pattern canvas_patterns content")
        case None
        with Inr False show ?thesis by (simp add: canvas_fix_node_file_def)
      next
        case (Some fixed_content)
        note ad = first_pattern_adapter [OF Some]
        show ?thesis
        proof (cases "write_text p fixed_content w")
          case (Inl e)
          with Inr False Some show ?thesis by (simp add: canvas_fix_node_file_def)
        next
          case w1: (Inr w1)
          with Inr have "read_text p w1 = Inr fixed_content"
            by (auto simp: read_text_def write_text_def split: option.splits if_splits)
          with ad have "canvas_fix_node_file p w1 = (Inr (), w1)"
            by (simp add: canvas_fix_node_file_def)
          moreover from Inr False Some w1 have "canvas_fix_node_file p w = (Inr (), w1)"
            by (simp add: canvas_fix_node_file_def)
          ultimately show ?thesis by simp
        qed
      qed
    qed
  qed
  then show ?thesis by (simp add: first_pattern_adapter)
qed

theorem canvas_fix_idempotent_witness:
  "first_pattern canvas_patterns ''Canvas = canvas)'' =
     Some ''Canvas = new SkiaCanvasAdapter(canvas))'' \<and>
   contains ''SkiaCanvasAdapter'' ''Canvas = new SkiaCanvasAdapter(canvas))'' \<and>
   snd (canvas_fix_node_file ''Node.cs'' (snd (canvas_fix_node_file ''Node.cs'' canvas_world))) =
     snd (canvas_fix_node_file ''Node.cs'' canvas_world)"
  using canvas_fix_idempotent [of "''Node.cs''" canvas_world "''Canvas = canvas)''"
      "''Canvas = new SkiaCanvasAdapter(canvas))''"] first_pattern_canvas
  by simp

text \<open>
  The claim as stated fails on fix_simple.py: its last replacement finds its own output
  again, and every further run appends one more semicolon.
\<close>

theorem simple_not_idempotent_counterexample:
  "simple_transform ''Canvas = c })'' = ''Canvas = c });'' \<and>
   simple_transform (simple_transform ''Canvas = c })'') = ''Canvas = c });;''"
  by code_simp

section \<open>What a body pattern matches\<close>

lemma re_match_lit: "re_match (lit u @ r) (u @ s) = re_match r s"
  by (induction u) (simp_all add: lit_def)

lemma re_match_many:
  assumes "\<forall>x\<in>set xs. accepts c x" and "t = [] \<or> \<not> accepts c (hd t)"
    and "re_match r t = Some u"
  shows "re_match (Many c # r) (xs @ t) = Some u"
  using assms
proof (induction xs)
  case Nil
  then show ?case by (cases t) auto
qed simp

lemma re_match_body:
  assumes "\<forall>c\<in>set ws. is_space c" and "CHR ''}'' \<notin> set body"
  shows "re_match [Many Space, One (Is (CHR ''{'')), Many (Not (CHR ''}'')), One (Is (CHR ''}''))]
           (ws @ ''{'' @ body @ ''}'' @ rest) = Some rest"
proof -
  have b: "re_match [Many (Not (CHR ''}'')), One (Is (CHR ''}''))] (body @ ''}'' @ rest) = Some rest"
    using assms(2) by (intro re_match_many) auto
  have nb: "\<not> is_space (CHR ''{'')"
    by (simp add: is_space_def)
  show ?thesis
    using assms(1) b nb by (intro re_match_many) auto
qed

lemma re_match_frame_block:
  assumes "CHR '')'' \<notin> set args" "\<forall>c\<in>set ws. is_space c" "CHR ''}'' \<notin> set body"
  shows "re_match process_frame_pattern (frame_block args ws body @ rest) = Some rest"
proof -
  have "re_match ([Many (Not (CHR '')''))] @ One (Is (CHR '')'')) #
           [Many Space, One (Is (CHR ''{'')), Many (Not (CHR ''}'')), One (Is (CHR ''}''))])
          (args @ '')'' @ ws @ ''{'' @ body @ ''}'' @ rest) = Some rest"
    using assms(1) re_match_body [OF assms(2,3), of rest]
    by (simp, intro re_match_many) auto
  then show ?thesis
    unfolding process_frame_pattern_def frame_block_def
    by (simp only: append_assoc re_match_lit) simp
qed

text \<open>
  A body pattern is \<open>signature \s* \{ [^}]* \}\<close>. For any argument text without \<open>)\<close>,
  any whitespace, any body text without \<open>}\<close> and any text after the closing brace, the
  match ends just after that brace, the first one after the opening brace.
\<close>

lemma body_pattern_first_closer:
  assumes "CHR '')'' \<notin> set args" "\<forall>c\<in>set ws. is_space c" "CHR ''}'' \<notin> set body"
  shows "re_match process_frame_pattern
           (''public override void ProcessFrame('' @ args @ '')'' @ ws @ ''{'' @ body @ ''}'' @ rest)
           = Some rest \<and>
         re_match get_config_pattern
           (''public override Dictionary<string, object> GetConfiguration()'' @
            ws @ ''{'' @ body @ ''}'' @ rest) = Some rest \<and>
         re_match apply_config_pattern
           (''public override void ApplyConfiguration(Dictionary<string, object> config)'' @
            ws @ ''{'' @ body @ ''}'' @ rest) = Some rest"
proof -
  have 1: "re_match process_frame_pattern
           (''public override void ProcessFrame('' @ args @ '')'' @ ws @ ''{'' @ body @ ''}'' @ rest)
           = Some rest"
    using re_match_frame_block [OF assms, of rest] by (simp add: frame_block_def)
  have 2: "re_match get_config_pattern
           (''public override Dictionary<string, object> GetConfiguration()'' @
            ws @ ''{'' @ body @ ''}'' @ rest) = Some rest"
    unfolding get_config_pattern_def
    by (simp only: re_match_lit re_match_body [OF assms(2,3)])
  have 3: "re_match apply_config_pattern
           (''public override void ApplyConfiguration(Dictionary<string, object> config)'' @
            ws @ ''{'' @ body @ ''}'' @ rest) = Some rest"
    unfolding apply_config_pattern_def
    by (simp only: re_match_lit re_match_body [OF assms(2,3)])
  from 1 2 3 show ?thesis by simp
qed

lemma nested_class_search: "re_search process_frame_pattern nested_class = Some (14, 86)"
  by code_simp

lemma nested_class_rest: "re_search process_frame_pattern (drop 86 nested_class) = None"
  by code_simp

lemma nested_class_parts:
  "nested_class_fixed = take 14 nested_class @ process_core_text @ drop 86 nested_class"
  unfolding nested_class_fixed_def nested_class_def by simp

lemma nested_class_fixed_free:
  "\<not> contains ''public override Dictionary<string, object> GetConfiguration()'' nested_class_fixed"
  "\<not> contains ''public override void ApplyConfiguration(Dictionary<string, object> config)''
       nested_class_fixed"
  "\<not> contains ''#region Configuration'' nested_class_fixed"
  by code_simp+

lemma nested_class_rules: "fix_rules nested_class = (nested_class_fixed, True)"
proof -
  have 1: "apply_rule process_frame_pattern process_core_text (nested_class, False) =
      (nested_class_fixed, True)"
    using re_sub_first [OF nested_class_search, of process_core_text]
      re_sub_none [OF nested_class_rest, of process_core_text]
    by (simp add: apply_rule_def nested_class_search nested_class_parts)
  show ?thesis
    unfolding fix_rules_def 1
    by (simp add: apply_rule_def get_config_pattern_def apply_config_pattern_def
        incomplete_region_pattern_def trailing_region_pattern_def re_search_lit_none
        nested_class_fixed_free)
qed

lemma nested_class_content: "fix_content nested_class = nested_class_fixed"
proof -
  define x where
    "x = ''class N\<newline>{\<newline>    '' @ process_core_text @ ''\<newline>        Draw();\<newline>    }\<newline>''"
  have e: "nested_class_fixed = x @ CHR ''}'' # ''\<newline>''"
    by (simp add: nested_class_fixed_def x_def)
  have "rstrip (x @ CHR ''}'' # ''\<newline>'') = x @ [CHR ''}'']"
    by (rule rstrip_ends) (simp_all add: is_space_def)
  then show ?thesis
    by (simp add: fix_content_def nested_class_rules e)
qed

lemma nested_class_issues: "structure_issues nested_class_fixed = []"
  by code_simp

text \<open>
  C5 (the code departs from the claim). The method in \<open>nested_class\<close> starts at position
  14 and its body closes, with the nesting back at depth zero, at position 108. The
  pattern of step 1 matches the span from 14 to 86 only, up to the closing brace of the
  inner \<open>for\<close> block: \<open>[^}]*\<close> cannot pass a \<open>}\<close>. So \<open>fix.py\<close> replaces the head of the
  method and leaves its tail, \<open>Draw();\<close> and a closing brace, behind the new methods, and
  the structure check reports nothing.
\<close>

theorem nested_method_cut:
  "re_search process_frame_pattern nested_class = Some (14, 86) \<and>
   spec_balanced_end 0 14 (drop 14 nested_class) = Some 108 \<and>
   fix_rules nested_class = (nested_class_fixed, True) \<and>
   fix_content nested_class =
     ''class N\<newline>{\<newline>    '' @ process_core_text @
     ''\<newline>        Draw();\<newline>    }\<newline>}\<newline>'' \<and>
   structure_issues (fix_content nested_class) = []"
proof -
  have "spec_balanced_end 0 14 (drop 14 nested_class) = Some 108"
    by code_simp
  then show ?thesis
    by (simp add: nested_class_search nested_class_rules nested_class_content
        nested_class_issues)
       (simp add: nested_class_fixed_def)
qed

section \<open>Every occurrence of a block is replaced\<close>

lemma re_match_frame_other: "CHR ''p'' \<noteq> x \<Longrightarrow> re_match process_frame_pattern (x # xs) = None"
  by (auto simp: process_frame_pattern_def lit_def)

lemma re_match_frame_Nil: "re_match process_frame_pattern [] = None"
  by (simp add: process_frame_pattern_def lit_def)

lemma re_sub_frame_gap:
  "CHR ''p'' \<notin> set gap \<Longrightarrow>
   re_sub process_frame_pattern repl (gap @ s) = gap @ re_sub process_frame_pattern repl s"
  by (induction gap)
     (simp_all add: re_sub.simps [of _ _ "_ # _"] re_match_frame_other)

lemma re_sub_frame_block:
  assumes "CHR '')'' \<notin> set args" "\<forall>c\<in>set ws. is_space c" "CHR ''}'' \<notin> set body"
  shows "re_sub process_frame_pattern repl (frame_block args ws body @ s) =
           repl @ re_sub process_frame_pattern repl s"
proof -
  have "length s < length (frame_block args ws body @ s)"
    by (simp add: frame_block_def)
  then show ?thesis
    by (subst re_sub.simps) (simp add: re_match_frame_block [OF assms])
qed

lemma block_pattern_starts:
  assumes "r \<in> {process_frame_pattern, get_config_pattern, apply_config_pattern,
                incomplete_region_pattern, trailing_region_pattern}"
  shows "\<exists>c r'. r = One c # r'"
  using assms
  by (auto simp: process_frame_pattern_def get_config_pattern_def apply_config_pattern_def
      incomplete_region_pattern_def trailing_region_pattern_def lit_def)

text \<open>
  C6 (as amended). \<open>re.sub\<close> is called without \<open>count\<close>, so a block rule replaces every
  match, from left to right, in every text. With no match the text is returned as it is.
  With a first match at \<open>(i, j)\<close>, which is never empty, the result is the text before
  \<open>i\<close>, the new text, and the substitution carried on in the rest of the text from \<open>j\<close>.
  So when the rest holds a second match, at \<open>(i', j')\<close>, that one is replaced as well.
\<close>

theorem block_rule_replaces_every_match:
  assumes "r \<in> {process_frame_pattern, get_config_pattern, apply_config_pattern,
                incomplete_region_pattern, trailing_region_pattern}"
  shows "(re_search r s = None \<longrightarrow> re_sub r repl s = s) \<and>
         (\<forall>i j. re_search r s = Some (i, j) \<longrightarrow>
            i < j \<and> j \<le> length s \<and>
            re_sub r repl s = take i s @ repl @ re_sub r repl (drop j s)) \<and>
         (\<forall>i j i' j'. re_search r s = Some (i, j) \<and> re_search r (drop j s) = Some (i', j') \<longrightarrow>
            re_sub r repl s =
              take i s @ repl @ take i' (drop j s) @ repl @ re_sub r repl (drop j' (drop j s)))"
proof -
  from block_pattern_starts [OF assms] obtain c r' where r: "r = One c # r'"
    by blast
  have 1: "re_search r s = None \<longrightarrow> re_sub r repl s = s"
    by (simp add: re_sub_none)
  have 2: "i < j \<and> j \<le> length t \<and> re_sub r repl t = take i t @ repl @ re_sub r repl (drop j t)"
    if "re_search r t = Some (i, j)" for i j t
    using that re_search_nonempty [of c r' t i j] re_search_span [of r t i j]
    by (simp add: r re_sub_first)
  have 3: "re_sub r repl s =
        take i s @ repl @ take i' (drop j s) @ repl @ re_sub r repl (drop j' (drop j s))"
    if "re_search r s = Some (i, j)" "re_search r (drop j s) = Some (i', j')" for i j i' j'
    using 2 [OF that(1)] 2 [OF that(2)] by simp
  from 1 2 3 show ?thesis by blast
qed

theorem block_rule_replaces_every_match_witness:
  "process_frame_pattern \<in> {process_frame_pattern, get_config_pattern, apply_config_pattern,
      incomplete_region_pattern, trailing_region_pattern} \<and>
   re_search process_frame_pattern two_methods_apart = Some (0, 49) \<and>
   re_search process_frame_pattern (drop 49 two_methods_apart) = Some (16, 60) \<and>
   re_sub process_frame_pattern ''X'' two_methods_apart = ''X private int n; X''"
proof -
  have m: "process_frame_pattern \<in> {process_frame_pattern, get_config_pattern,
      apply_config_pattern, incomplete_region_pattern, trailing_region_pattern}"
    by simp
  have a: "re_search process_frame_pattern two_methods_apart = Some (0, 49)"
    by code_simp
  have b: "re_search process_frame_pattern (drop 49 two_methods_apart) = Some (16, 60)"
    by code_simp
  have c: "re_sub process_frame_pattern ''X'' (drop 60 (drop 49 two_methods_apart)) = []"
    by code_simp
  have d: "take 0 two_methods_apart @ ''X'' @ take 16 (drop 49 two_methods_apart) @ ''X'' @ [] =
      ''X private int n; X''"
    by code_simp
  from block_rule_replaces_every_match [OF m, of two_methods_apart "''X''"] a b
  have "re_sub process_frame_pattern ''X'' two_methods_apart =
      take 0 two_methods_apart @ ''X'' @ take 16 (drop 49 two_methods_apart) @ ''X'' @
      re_sub process_frame_pattern ''X'' (drop 60 (drop 49 two_methods_apart))"
    by blast
  with m a b c d show ?thesis by simp
qed

lemma re_search_at_start: "re_match r s \<noteq> None \<Longrightarrow> re_search r s \<noteq> None"
  by (cases s) (auto split: option.splits)

text \<open>
  The claim as stated fails: with two \<open>ProcessFrame\<close> methods in the text, step 1
  replaces both, the second as well as the first.
\<close>

theorem second_block_replaced_counterexample:
  "apply_rule process_frame_pattern process_core_text (two_methods, False) =
     (process_core_text @ '' '' @ process_core_text, True)"
proof -
  have s: "two_methods =
      frame_block ''int x'' '' '' '' a(); '' @ '' '' @ frame_block [] '' '' '' b(); '' @ []"
    by (simp add: two_methods_def frame_block_def)
  have 1: "CHR '')'' \<notin> set ''int x''" "\<forall>c\<in>set '' ''. is_space c" "CHR ''}'' \<notin> set '' a(); ''"
    and 2: "CHR '')'' \<notin> set []" "CHR ''}'' \<notin> set '' b(); ''" and 3: "CHR ''p'' \<notin> set '' ''"
    by (simp_all add: is_space_def)
  have "re_match process_frame_pattern two_methods \<noteq> None"
    unfolding s using re_match_frame_block [OF 1] by simp
  then have f: "re_search process_frame_pattern two_methods \<noteq> None"
    by (rule re_search_at_start)
  have "re_sub process_frame_pattern process_core_text two_methods =
      process_core_text @ '' '' @ process_core_text"
    unfolding s
    by (simp only: re_sub_frame_block [OF 1] re_sub_frame_gap [OF 3]
        re_sub_frame_block [OF 2(1) 1(2) 2(2)])
       (simp add: re_sub.simps [of _ _ "[]"] re_match_frame_Nil)
  with f show ?thesis
    by (simp add: apply_rule_def)
qed

section \<open>Facts about \<open>str.replace\<close>\<close>

lemma replace_Nil: "replace old new [] = (if old = [] then new else [])"
  by (simp add: replace.simps)

lemma replace_Cons_hit:
  "old \<noteq> [] \<Longrightarrow> prefix old (c # cs) \<Longrightarrow>
   replace old new (c # cs) = new @ replace old new (drop (length old) (c # cs))"
  by (simp add: replace.simps [of old new "c # cs"])

lemma replace_Cons_miss:
  "old \<noteq> [] \<Longrightarrow> \<not> prefix old (c # cs) \<Longrightarrow>
   replace old new (c # cs) = c # replace old new cs"
  by (simp add: replace.simps [of old new "c # cs"])

lemma replace_at_old: "old \<noteq> [] \<Longrightarrow> replace old new (old @ b) = new @ replace old new b"
  by (cases old) (simp_all add: replace_Cons_hit)

lemma prefix_append_agree: "prefix u (v @ w) \<Longrightarrow> agree u v"
  by (auto simp: agree_def prefix_append)

lemma starts_free_suffix:
  "starts_free x t \<Longrightarrow> suffix us t \<Longrightarrow> us \<noteq> [] \<Longrightarrow> \<not> agree x us"
  by (induction t) (auto simp: suffix_Cons)

lemma replace_copy:
  "old \<noteq> [] \<Longrightarrow> starts_free old x \<Longrightarrow> replace old new (x @ b) = x @ replace old new b"
proof (induction x)
  case (Cons c x)
  from Cons.prems have "\<not> prefix old ((c # x) @ b)"
    using prefix_append_agree by auto
  with Cons show ?case
    by (simp add: replace_Cons_miss)
qed simp

lemma replace_before:
  assumes "old \<noteq> []" and "starts_free x (tl old)"
  shows "replace old new (a @ x @ b) = replace old new a @ replace old new (x @ b)"
proof (induction a rule: length_induct)
  case (1 a)
  show ?case
  proof (cases a)
    case Nil
    with assms(1) show ?thesis by (simp add: replace_Nil)
  next
    case (Cons c cs)
    show ?thesis
    proof (cases "prefix old (a @ x @ b)")
      case True
      have pa: "prefix old a"
      proof (rule ccontr)
        assume n: "\<not> prefix old a"
        with True obtain us where us: "old = a @ us" "prefix us (x @ b)"
          by (auto simp: prefix_append)
        with n have ne: "us \<noteq> []" by auto
        from us(1) Cons have "suffix us (tl old)"
          by (simp add: suffix_def)
        from starts_free_suffix [OF assms(2) this ne] us(2) show False
          using prefix_append_agree [of us x b] by (auto simp: agree_def)
      qed
      then obtain a' where a': "a = old @ a'"
        by (auto simp: prefix_def)
      with assms(1) have "length a' < length a" by simp
      with 1 have "replace old new (a' @ x @ b) = replace old new a' @ replace old new (x @ b)"
        by blast
      with a' assms(1) show ?thesis
        using replace_at_old [of old new "a' @ x @ b"] replace_at_old [of old new a']
        by simp
    next
      case False
      then have "\<not> prefix old a"
        by (auto simp: prefix_def)
      with False Cons assms(1) 1 show ?thesis
        by (simp add: replace_Cons_miss)
    qed
  qed
qed

lemma replace_keeps:
  assumes "old \<noteq> []" "starts_free old x" "starts_free x (tl old)"
  shows "replace old new (a @ x @ b) = replace old new a @ x @ replace old new b"
  by (simp add: replace_before [OF assms(1,3)] replace_copy [OF assms(1,2)])

lemma replace_first_match:
  assumes "old \<noteq> []"
  shows "\<not> contains old s \<and> replace old new s = s \<or>
         (\<exists>pre post. s = pre @ old @ post \<and>
            replace old new s = pre @ new @ replace old new post)"
proof (induction s)
  case Nil
  with assms show ?case by (simp add: replace_Nil)
next
  case (Cons c cs)
  show ?case
  proof (cases "prefix old (c # cs)")
    case True
    then obtain post where "c # cs = [] @ old @ post"
      by (auto simp: prefix_def)
    moreover from this assms have "replace old new (c # cs) = [] @ new @ replace old new post"
      using replace_at_old [of old new post] by simp
    ultimately show ?thesis by blast
  next
    case False
    from Cons show ?thesis
    proof
      assume "\<not> contains old cs \<and> replace old new cs = cs"
      with False assms show ?thesis
        by (simp add: replace_Cons_miss)
    next
      assume "\<exists>pre post. cs = pre @ old @ post \<and>
            replace old new cs = pre @ new @ replace old new post"
      then obtain pre post where "cs = pre @ old @ post"
        "replace old new cs = pre @ new @ replace old new post"
        by blast
      with False assms have "c # cs = (c # pre) @ old @ post \<and>
          replace old new (c # cs) = (c # pre) @ new @ replace old new post"
        by (simp add: replace_Cons_miss)
      then show ?thesis by blast
    qed
  qed
qed

lemma replace_absent: "old \<noteq> [] \<Longrightarrow> \<not> contains old s \<Longrightarrow> replace old new s = s"
  using replace_first_match [of old s new]
  by (auto simp: contains_sublist sublist_def)

lemma contains_after:
  "old \<noteq> [] \<Longrightarrow> starts_free old x \<Longrightarrow> contains old (x @ r) \<Longrightarrow> contains old r"
proof (induction x)
  case (Cons c x)
  from Cons.prems have "\<not> prefix old ((c # x) @ r)"
    using prefix_append_agree by auto
  with Cons show ?case by simp
qed simp

lemma replace_removes:
  assumes "old \<noteq> []" "starts_free old new" "starts_free new (tl old)"
  shows "\<not> contains old (replace old new s)"
proof (induction s rule: length_induct)
  case (1 s)
  show ?case
  proof (cases s)
    case Nil
    with assms(1) show ?thesis by (simp add: replace_Nil)
  next
    case (Cons c cs)
    show ?thesis
    proof (cases "prefix old s")
      case True
      then obtain post where post: "s = old @ post"
        by (auto simp: prefix_def)
      with assms(1) have "length post < length s" by simp
      with 1 have "\<not> contains old (replace old new post)" by blast
      with assms(1,2) have "\<not> contains old (new @ replace old new post)"
        using contains_after by blast
      with post assms(1) show ?thesis
        by (simp add: replace_at_old)
    next
      case False
      with Cons assms(1) have r: "replace old new s = c # replace old new cs"
        by (simp add: replace_Cons_miss)
      from 1 Cons have ih: "\<not> contains old (replace old new cs)" by simp
      have "\<not> prefix old (c # replace old new cs)"
      proof
        assume p: "prefix old (c # replace old new cs)"
        from replace_first_match [OF assms(1), of cs new] show False
        proof
          assume "\<not> contains old cs \<and> replace old new cs = cs"
          with p False Cons show False by simp
        next
          assume "\<exists>pre post. cs = pre @ old @ post \<and>
            replace old new cs = pre @ new @ replace old new post"
          then obtain pre post where pp: "cs = pre @ old @ post"
            "replace old new cs = pre @ new @ replace old new post"
            by blast
          with p have p': "prefix old ((c # pre) @ new @ replace old new post)" by simp
          have np: "\<not> prefix old (c # pre)"
          proof
            assume "prefix old (c # pre)"
            then have "prefix old ((c # pre) @ old @ post)" by (rule prefix_prefix)
            with False Cons pp(1) show False by simp
          qed
          with p' obtain us where us: "old = (c # pre) @ us" "prefix us (new @ replace old new post)"
            unfolding prefix_append by blast
          with np have ne: "us \<noteq> []" by auto
          from us(1) have "suffix us (tl old)" by (simp add: suffix_def)
          from starts_free_suffix [OF assms(3) this ne] us(2) show False
            using prefix_append_agree [of us new] by (auto simp: agree_def)
        qed
      qed
      with ih r show ?thesis by simp
    qed
  qed
qed

lemma contains_longer: "contains (u @ v) s \<Longrightarrow> contains u s"
  unfolding contains_sublist
  by (meson sublist_appendI sublist_order.order_trans sublist_order.order_refl prefix_imp_sublist prefixI)

section \<open>fix_simple.py: the call \<open>.Process(f, c)\<close>\<close>

lemma simple_free1:
  "starts_free ''EffectRegistry.Create('' ''.Process(f, c)''"
  "starts_free ''.Process(f, c)'' (tl ''EffectRegistry.Create('')"
  by code_simp+

lemma simple_free2:
  "starts_free ''.Process(f,'' (tl ''.Process(f,'')"
  "starts_free ''.Process(f,'' '' c)''"
  "starts_free ''.Process(f,'' render_call"
  "starts_free render_call (tl ''.Process(f,'')"
  by code_simp+

lemma simple_free4:
  "starts_free ''Canvas =  canvas);'' (render_call @ '' c)'')"
  "starts_free (render_call @ '' c)'') (tl ''Canvas =  canvas);'')"
  by code_simp+

lemma simple_free5:
  "starts_free ''Canvas = c })'' (render_call @ '' c)'')"
  "starts_free (render_call @ '' c)'') (tl ''Canvas = c })'')"
  by code_simp+

lemma simple_step2_removes: "\<not> contains ''.Process(f,'' (simple_step2 s)"
  unfolding simple_step2_def
  by (rule replace_removes [OF _ simple_free2(3,4)]) simp

lemma simple_step3_idle: "simple_step3 (simple_step2 s) = simple_step2 s"
proof -
  have "\<not> contains (''.Process(f,'' @ '' c)'') (simple_step2 s)"
    using simple_step2_removes contains_longer by blast
  then show ?thesis
    unfolding simple_step3_def by (intro replace_absent) simp_all
qed

lemma render_call_tail: "contains ''Canvas =  c)'' (render_call @ '' c)'')"
  by code_simp

text \<open>
  C10. Whatever the text, after the replacement of \<open>.Process(f,\<close> no \<open>.Process(f,\<close> is
  left, so the replacement of \<open>.Process(f, c)\<close> that follows changes nothing. When the
  text contains \<open>.Process(f, c)\<close>, the result of the script contains the inserted
  \<open>RenderContext\<close> initialiser followed by \<open> c)\<close>, that is \<open>Canvas =  c)\<close> with two
  spaces and without the closing \<open>}\<close>: the two last replacements do not touch it.
\<close>

theorem simple_process_call_left_open:
  assumes "contains ''.Process(f, c)'' content"
  shows "\<not> contains ''.Process(f, c)'' (simple_step2 (simple_step1 content)) \<and>
         simple_step3 (simple_step2 (simple_step1 content)) = simple_step2 (simple_step1 content) \<and>
         contains (render_call @ '' c)'') (simple_transform content) \<and>
         contains ''Canvas =  c)'' (simple_transform content)"
proof -
  from assms obtain a b where c: "content = a @ ''.Process(f, c)'' @ b"
    by (auto simp: contains_sublist sublist_def)
  define a1 where "a1 = simple_step1 a"
  define b1 where "b1 = simple_step1 b"
  have s1: "simple_step1 content = a1 @ ''.Process(f,'' @ '' c)'' @ b1"
    unfolding c simple_step1_def a1_def b1_def
    using replace_keeps [OF _ simple_free1, of "''EffectRegistry.CreateByName(''" a b]
    by simp
  define a2 where "a2 = simple_step2 a1"
  define b2 where "b2 = simple_step2 b1"
  have "simple_step2 (simple_step1 content) =
          a2 @ simple_step2 (''.Process(f,'' @ '' c)'' @ b1)"
    unfolding s1 simple_step2_def a2_def
    by (rule replace_before [OF _ simple_free2(1)]) simp
  also have "simple_step2 (''.Process(f,'' @ '' c)'' @ b1) = render_call @ simple_step2 ('' c)'' @ b1)"
    unfolding simple_step2_def by (rule replace_at_old) simp
  also have "simple_step2 ('' c)'' @ b1) = '' c)'' @ b2"
    unfolding simple_step2_def b2_def by (rule replace_copy [OF _ simple_free2(2)]) simp
  finally have s2: "simple_step2 (simple_step1 content) = a2 @ (render_call @ '' c)'') @ b2"
    by simp
  have n: "\<not> contains ''.Process(f, c)'' (simple_step2 (simple_step1 content))"
    using simple_step2_removes [of "simple_step1 content"]
      contains_longer [of "''.Process(f,''" "'' c)''"]
    by auto
  have s3: "simple_step3 (simple_step2 (simple_step1 content)) = simple_step2 (simple_step1 content)"
    by (rule simple_step3_idle)
  have s4: "simple_step4 (a2 @ (render_call @ '' c)'') @ b2) =
              simple_step4 a2 @ (render_call @ '' c)'') @ simple_step4 b2"
    unfolding simple_step4_def by (rule replace_keeps [OF _ simple_free4]) simp
  have s5: "simple_step5 (simple_step4 a2 @ (render_call @ '' c)'') @ simple_step4 b2) =
              simple_step5 (simple_step4 a2) @ (render_call @ '' c)'') @
              simple_step5 (simple_step4 b2)"
    unfolding simple_step5_def by (rule replace_keeps [OF _ simple_free5]) simp
  have t: "simple_transform content =
             simple_step5 (simple_step4 a2) @ (render_call @ '' c)'') @
             simple_step5 (simple_step4 b2)"
  proof -
    have "simple_transform content = simple_step5 (simple_step4 (simple_step2 (simple_step1 content)))"
      by (simp only: simple_transform_def s3)
    also have "\<dots> = simple_step5 (simple_step4 a2) @ (render_call @ '' c)'') @
             simple_step5 (simple_step4 b2)"
      by (simp only: s2 s4 s5)
    finally show ?thesis .
  qed
  have k: "contains (render_call @ '' c)'') (simple_transform content)"
    unfolding t contains_sublist by (rule sublist_appendI)
  have k': "contains ''Canvas =  c)'' (simple_transform content)"
    unfolding t by (rule contains_inside [OF render_call_tail])
  from n s3 k k' show ?thesis by simp
qed

theorem simple_process_call_left_open_witness:
  "contains ''.Process(f, c)'' ''n.Process(f, c);'' \<and>
   \<not> contains ''.Process(f, c)'' (simple_step2 (simple_step1 ''n.Process(f, c);'')) \<and>
   simple_step3 (simple_step2 (simple_step1 ''n.Process(f, c);'')) =
     simple_step2 (simple_step1 ''n.Process(f, c);'') \<and>
   contains (render_call @ '' c)'') (simple_transform ''n.Process(f, c);'') \<and>
   contains ''Canvas =  c)'' (simple_transform ''n.Process(f, c);'')"
proof -
  have h: "contains ''.Process(f, c)'' ''n.Process(f, c);''" by code_simp
  from simple_process_call_left_open [OF h] h show ?thesis by blast
qed

end
